theory Spec2Isabelle
  imports Main "HOL-Library.Sublist"
begin

section \<open>Python string primitives\<close>

text \<open>
  A Python \<open>str\<close> is modelled as a \<open>string\<close>; every \<open>char\<close> stands for one code
  point below 256. The functions of this section are the library operations the
  repository calls: \<open>str.strip\<close>, \<open>str.split\<close>, \<open>str.replace\<close>, \<open>str.join\<close>,
  \<open>str(int)\<close>, list indexing, item assignment on a \<open>dict\<close>, and \<open>search\<close> of a
  compiled pattern. A regular expression is modelled by the function that matches it
  at the start of a text; the three bracket patterns and the two patterns of the
  cleaner need no backtracking, since the character after a greedy class decides the
  match.
\<close>

definition is_space :: "char \<Rightarrow> bool" where
  \<comment> \<open>\<open>str.isspace\<close> on one code point; \<open>\s\<close> of \<open>re\<close> uses the same table.\<close>
  "is_space c =
     (let n = (of_char c :: nat)
      in (9 \<le> n \<and> n \<le> 13) \<or> (28 \<le> n \<and> n \<le> 32) \<or> n = 133 \<or> n = 160)"

definition lstrip :: "string \<Rightarrow> string" where
  "lstrip s = dropWhile is_space s"

definition rstrip :: "string \<Rightarrow> string" where
  "rstrip s = rev (dropWhile is_space (rev s))"

definition strip :: "string \<Rightarrow> string" where
  \<comment> \<open>\<open>s.strip()\<close>\<close>
  "strip s = lstrip (rstrip s)"

fun split_on :: "char \<Rightarrow> string \<Rightarrow> string list" where
  \<comment> \<open>\<open>s.split(d)\<close> for a one-character separator\<close>
  "split_on d [] = [[]]"
| "split_on d (c # cs) =
     (if c = d then [] # split_on d cs
      else (case split_on d cs of [] \<Rightarrow> [[c]] | p # ps \<Rightarrow> (c # p) # ps))"

fun replace_ne :: "string \<Rightarrow> string \<Rightarrow> string \<Rightarrow> string" where
  \<comment> \<open>the left-to-right scan of \<open>s.replace(old, new)\<close>, \<open>old\<close> not empty\<close>
  "replace_ne old new [] = []"
| "replace_ne old new (c # cs) =
     (if old \<noteq> [] \<and> prefix old (c # cs)
      then new @ replace_ne old new (drop (length old) (c # cs))
      else c # replace_ne old new cs)"

definition py_replace :: "string \<Rightarrow> string \<Rightarrow> string \<Rightarrow> string" where
  \<comment> \<open>\<open>s.replace(old, new)\<close>; an empty \<open>old\<close> matches before every character and at the end\<close>
  "py_replace old new s =
     (if old = [] then new @ concat (map (\<lambda>c. c # new) s) else replace_ne old new s)"

fun join :: "string \<Rightarrow> string list \<Rightarrow> string" where
  \<comment> \<open>\<open>sep.join(xs)\<close>\<close>
  "join sep [] = []"
| "join sep [x] = x"
| "join sep (x # y # ys) = x @ sep @ join sep (y # ys)"

fun str_nat :: "nat \<Rightarrow> string" where
  \<comment> \<open>\<open>str(n)\<close> for a non-negative integer\<close>
  "str_nat n =
     (if n < 10 then [char_of (48 + n)]
      else str_nat (n div 10) @ [char_of (48 + n mod 10)])"

declare str_nat.simps [simp del]

datatype error = IndexError | KeyError

definition py_get :: "'a list \<Rightarrow> int \<Rightarrow> error + 'a" where
  \<comment> \<open>\<open>xs[i]\<close>: an index from \<open>-len(xs)\<close> to \<open>-1\<close> counts from the end, an index out
      of range raises\<close>
  "py_get xs i =
     (if 0 \<le> i \<and> i < int (length xs) then Inr (xs ! nat i)
      else if i < 0 \<and> - int (length xs) \<le> i then Inr (xs ! nat (int (length xs) + i))
      else Inl IndexError)"

fun dict_set :: "('k \<times> 'v) list \<Rightarrow> 'k \<Rightarrow> 'v \<Rightarrow> ('k \<times> 'v) list" where
  \<comment> \<open>\<open>d[k] = v\<close> on a dict kept in insertion order\<close>
  "dict_set [] k v = [(k, v)]"
| "dict_set ((k', v') # d) k v =
     (if k' = k then (k, v) # d else (k', v') # dict_set d k v)"

fun search :: "(string \<Rightarrow> (string \<times> string) option) \<Rightarrow> string \<Rightarrow> (string \<times> string \<times> string) option" where
  \<comment> \<open>\<open>pattern.search(s)\<close>: the leftmost position where the pattern matches, as
      (\<open>s[:match.start()]\<close>, \<open>match.group(0)\<close>, \<open>s[match.end():]\<close>)\<close>
  "search m [] = (case m [] of Some (g, a) \<Rightarrow> Some ([], g, a) | None \<Rightarrow> None)"
| "search m (c # cs) =
     (case m (c # cs) of
        Some (g, a) \<Rightarrow> Some ([], g, a)
      | None \<Rightarrow> map_option (\<lambda>(b, g, a). (c # b, g, a)) (search m cs))"

section \<open>utils/wildcard\_parser.py\<close>

definition is_ident_char :: "char \<Rightarrow> bool" where
  \<comment> \<open>the class \<open>[a-zA-Z0-9_]\<close>\<close>
  "is_ident_char c =
     (let n = (of_char c :: nat)
      in (97 \<le> n \<and> n \<le> 122) \<or> (65 \<le> n \<and> n \<le> 90) \<or> (48 \<le> n \<and> n \<le> 57) \<or> n = 95)"

definition match_wildcard :: "string \<Rightarrow> (string \<times> string) option" where
  \<comment> \<open>\<open>WILDCARD_PATTERN\<close>, \<open>\{wildcard_([a-zA-Z0-9_]+)\}\<close>, matched at the start of \<open>s\<close>:
      group 1 and the text after the match\<close>
  "match_wildcard s =
     (if prefix ''{wildcard_'' s
      then (let r = drop 10 s; n = takeWhile is_ident_char r
            in case dropWhile is_ident_char r of
                 [] \<Rightarrow> None
               | d # ds \<Rightarrow> if n \<noteq> [] \<and> d = CHR ''}'' then Some (n, ds) else None)
      else None)"

lemma match_wildcard_shorter:
  "match_wildcard s = Some (n, rest) \<Longrightarrow> length rest < length s"
proof -
  assume h: "match_wildcard s = Some (n, rest)"
  then obtain d where "dropWhile is_ident_char (drop 10 s) = d # rest"
    by (auto simp: match_wildcard_def Let_def split: if_splits list.splits)
  then have "length (d # rest) \<le> length (drop 10 s)"
    by (metis length_dropWhile_le)
  then show ?thesis by simp
qed

function findall_wildcard :: "string \<Rightarrow> string list" where
  \<comment> \<open>\<open>WILDCARD_PATTERN.findall(s)\<close>: group 1 of every match, left to right, not overlapping\<close>
  "findall_wildcard [] = []"
| "findall_wildcard (c # cs) =
     (case match_wildcard (c # cs) of
        Some (n, rest) \<Rightarrow> n # findall_wildcard rest
      | None \<Rightarrow> findall_wildcard cs)"
  by pat_completeness auto
termination
  by (relation "measure length") (auto dest: match_wildcard_shorter)

fun unique_loop :: "string set \<Rightarrow> string list \<Rightarrow> string list \<Rightarrow> string list" where
  \<comment> \<open>the loop of \<open>extract_wildcard_names\<close> over \<open>matches\<close>, on \<open>seen\<close> and \<open>unique_names\<close>\<close>
  "unique_loop seen unique_names [] = unique_names"
| "unique_loop seen unique_names (name # matches) =
     (let full_name = ''wildcard_'' @ name
      in if full_name \<notin> seen
         then unique_loop (insert full_name seen) (unique_names @ [full_name]) matches
         else unique_loop seen unique_names matches)"

definition extract_wildcard_names :: "string \<Rightarrow> string list" where
  "extract_wildcard_names text = unique_loop {} [] (findall_wildcard text)"

datatype py_value = PyStr string | PyInt int | PyBool bool | PyNone

fun truthy :: "py_value \<Rightarrow> bool" where
  \<comment> \<open>the truth value of \<open>value\<close> in \<open>if value\<close>\<close>
  "truthy (PyStr s) = (s \<noteq> [])"
| "truthy (PyInt i) = (i \<noteq> 0)"
| "truthy (PyBool b) = b"
| "truthy PyNone = False"

fun py_str :: "py_value \<Rightarrow> string" where
  \<comment> \<open>\<open>str(value)\<close>\<close>
  "py_str (PyStr s) = s"
| "py_str (PyInt i) = (if i < 0 then ''-'' @ str_nat (nat (- i)) else str_nat (nat i))"
| "py_str (PyBool b) = (if b then ''True'' else ''False'')"
| "py_str PyNone = ''None''"

fun apply_values :: "string \<Rightarrow> (string \<times> py_value) list \<Rightarrow> string" where
  \<comment> \<open>the first loop of \<open>replace_wildcards\<close>, over \<open>wildcard_values.items()\<close>\<close>
  "apply_values result [] = result"
| "apply_values result ((name, val) # items) =
     (let pattern = (if prefix ''wildcard_'' name then ''{'' @ name @ ''}''
                     else ''{wildcard_'' @ name @ ''}'')
      in apply_values (py_replace pattern (if truthy val then py_str val else []) result) items)"

fun blank_fill :: "string \<Rightarrow> string list \<Rightarrow> string" where
  \<comment> \<open>the second loop of \<open>replace_wildcards\<close>, over \<open>remaining_wildcards\<close>\<close>
  "blank_fill result [] = result"
| "blank_fill result (wc_name # names) =
     blank_fill (py_replace (''{'' @ wc_name @ ''}'') [] result) names"

definition replace_wildcards :: "string \<Rightarrow> (string \<times> py_value) list \<Rightarrow> string" where
  "replace_wildcards text wildcard_values =
     (let result = apply_values text wildcard_values;
          remaining_wildcards = extract_wildcard_names result
      in blank_fill result remaining_wildcards)"

definition match_paren :: "string \<Rightarrow> (string \<times> string) option" where
  \<comment> \<open>\<open>paren_pattern\<close>, \<open>\([^()]*\)\<close>, matched at the start of \<open>s\<close>: the matched text and
      the text after it\<close>
  "match_paren s =
     (case s of
        [] \<Rightarrow> None
      | c # cs \<Rightarrow>
          if c = CHR ''(''
          then (case dropWhile (\<lambda>x. x \<noteq> CHR ''('' \<and> x \<noteq> CHR '')'') cs of
                  [] \<Rightarrow> None
                | d # ds \<Rightarrow>
                    if d = CHR '')''
                    then Some (c # takeWhile (\<lambda>x. x \<noteq> CHR ''('' \<and> x \<noteq> CHR '')'') cs @ [d], ds)
                    else None)
          else None)"

definition match_curly :: "string \<Rightarrow> (string \<times> string) option" where
  \<comment> \<open>\<open>curly_pattern\<close>, \<open>\{(?!wildcard_)[^{}]*\}\<close>, matched at the start of \<open>s\<close>\<close>
  "match_curly s =
     (case s of
        [] \<Rightarrow> None
      | c # cs \<Rightarrow>
          if c = CHR ''{'' \<and> \<not> prefix ''wildcard_'' cs
          then (case dropWhile (\<lambda>x. x \<noteq> CHR ''{'' \<and> x \<noteq> CHR ''}'') cs of
                  [] \<Rightarrow> None
                | d # ds \<Rightarrow>
                    if d = CHR ''}''
                    then Some (c # takeWhile (\<lambda>x. x \<noteq> CHR ''{'' \<and> x \<noteq> CHR ''}'') cs @ [d], ds)
                    else None)
          else None)"

definition paren_placeholder :: "nat \<Rightarrow> string" where
  "paren_placeholder counter = ''__PAREN_'' @ str_nat counter @ ''__''"

definition curly_placeholder :: "nat \<Rightarrow> string" where
  "curly_placeholder counter = ''__CURLY_'' @ str_nat counter @ ''__''"

lemma search_split:
  assumes "\<And>t g a. m t = Some (g, a) \<Longrightarrow> t = g @ a"
  shows "search m s = Some (b, g, a) \<Longrightarrow> s = b @ g @ a"
proof (induction s arbitrary: b)
  case Nil
  then show ?case using assms [of "[]"] by (auto split: option.splits)
next
  case (Cons c cs)
  show ?case
  proof (cases "m (c # cs)")
    case None
    with Cons.prems obtain b' where "search m cs = Some (b', g, a)" and "b = c # b'"
      by auto
    with Cons.IH show ?thesis by simp
  next
    case (Some ga)
    with Cons.prems have "m (c # cs) = Some (g, a)" and "b = []"
      by (auto split: prod.splits)
    with assms show ?thesis by simp
  qed
qed

lemma search_matches:
  "search m s = Some (b, g, a) \<Longrightarrow> \<exists>t. m t = Some (g, a)"
proof (induction s arbitrary: b)
  case Nil
  then show ?case by (auto split: option.splits)
next
  case (Cons c cs)
  then show ?case by (cases "m (c # cs)") auto
qed

lemma match_paren_split: "match_paren t = Some (g, a) \<Longrightarrow> t = g @ a"
  unfolding match_paren_def
  by (auto split: list.splits if_splits) (metis takeWhile_dropWhile_id)

lemma match_curly_split: "match_curly t = Some (g, a) \<Longrightarrow> t = g @ a"
  unfolding match_curly_def
  by (auto split: list.splits if_splits) (metis takeWhile_dropWhile_id)

lemma char_of_digit: "k < 10 \<Longrightarrow> (of_char (char_of (48 + k) :: char) :: nat) = 48 + k"
  by simp

lemma str_nat_digits:
  "c \<in> set (str_nat n) \<Longrightarrow> 48 \<le> (of_char c :: nat) \<and> (of_char c :: nat) \<le> 57"
proof (induction n rule: str_nat.induct)
  case (1 n)
  show ?case
  proof (cases "n < 10")
    case True
    with "1.prems" have "c = char_of (48 + n)"
      by (subst (asm) str_nat.simps) simp
    with True char_of_digit [of n] show ?thesis by simp
  next
    case False
    with "1.prems" have "c \<in> set (str_nat (n div 10)) \<or> c = char_of (48 + n mod 10)"
      by (subst (asm) str_nat.simps) auto
    then show ?thesis
    proof
      assume "c \<in> set (str_nat (n div 10))"
      with False "1.IH" show ?thesis by simp
    next
      assume "c = char_of (48 + n mod 10)"
      moreover have "n mod 10 < 10" by simp
      ultimately show ?thesis using char_of_digit [of "n mod 10"] by simp
    qed
  qed
qed

lemma count_list_0: "x \<notin> set xs \<Longrightarrow> count_list xs x = 0"
  by (induction xs) auto

lemma paren_placeholder_count:
  "count_list (paren_placeholder n) c = 0" if "c = CHR ''('' \<or> c = CHR ''{''"
proof -
  have "c \<notin> set (str_nat n)" using str_nat_digits [of c n] that by auto
  then show ?thesis using that by (auto simp: paren_placeholder_def count_list_0)
qed

lemma curly_placeholder_count:
  "count_list (curly_placeholder n) c = 0" if "c = CHR ''('' \<or> c = CHR ''{''"
proof -
  have "c \<notin> set (str_nat n)" using str_nat_digits [of c n] that by auto
  then show ?thesis using that by (auto simp: curly_placeholder_def count_list_0)
qed

lemma match_paren_hd: "match_paren t = Some (g, a) \<Longrightarrow> \<exists>g'. g = CHR ''('' # g'"
  unfolding match_paren_def by (auto split: list.splits if_splits)

lemma match_curly_hd: "match_curly t = Some (g, a) \<Longrightarrow> \<exists>g'. g = CHR ''{'' # g'"
  unfolding match_curly_def by (auto split: list.splits if_splits)

lemma search_paren_decreases:
  assumes "search match_paren s = Some (b, g, a)"
  shows "count_list (b @ paren_placeholder n @ a) CHR ''('' < count_list s CHR ''(''"
proof -
  have s: "s = b @ g @ a" using search_split [OF match_paren_split assms] .
  obtain g' where "g = CHR ''('' # g'" using search_matches [OF assms] match_paren_hd by blast
  with s show ?thesis by (simp add: paren_placeholder_count)
qed

lemma search_curly_decreases:
  assumes "search match_curly s = Some (b, g, a)"
  shows "count_list (b @ curly_placeholder n @ a) CHR ''{'' < count_list s CHR ''{''"
proof -
  have s: "s = b @ g @ a" using search_split [OF match_curly_split assms] .
  obtain g' where "g = CHR ''{'' # g'" using search_matches [OF assms] match_curly_hd by blast
  with s show ?thesis by (simp add: curly_placeholder_count)
qed

function protect_parens ::
  "string \<Rightarrow> (string \<times> string) list \<Rightarrow> nat \<Rightarrow> string \<times> (string \<times> string) list \<times> nat" where
  \<comment> \<open>the first \<open>while\<close> loop of \<open>_protect_brackets\<close>, on \<open>result\<close>, \<open>replacements\<close>, \<open>counter\<close>\<close>
  "protect_parens result replacements counter =
     (case search match_paren result of
        None \<Rightarrow> (result, replacements, counter)
      | Some (before, group0, after) \<Rightarrow>
          (let placeholder = paren_placeholder counter
           in protect_parens (before @ placeholder @ after)
                (dict_set replacements placeholder group0) (counter + 1)))"
  by pat_completeness auto
termination
  by (relation "measure (\<lambda>(result, replacements, counter). count_list result CHR ''('')")
    (use search_paren_decreases in auto)

function protect_curlies ::
  "string \<Rightarrow> (string \<times> string) list \<Rightarrow> nat \<Rightarrow> string \<times> (string \<times> string) list \<times> nat" where
  \<comment> \<open>the second \<open>while\<close> loop of \<open>_protect_brackets\<close>\<close>
  "protect_curlies result replacements counter =
     (case search match_curly result of
        None \<Rightarrow> (result, replacements, counter)
      | Some (before, group0, after) \<Rightarrow>
          (let placeholder = curly_placeholder counter
           in protect_curlies (before @ placeholder @ after)
                (dict_set replacements placeholder group0) (counter + 1)))"
  by pat_completeness auto
termination
  by (relation "measure (\<lambda>(result, replacements, counter). count_list result CHR ''{'')")
    (use search_curly_decreases in auto)

declare protect_parens.simps [simp del] protect_curlies.simps [simp del]

definition protect_brackets :: "string \<Rightarrow> string \<times> (string \<times> string) list" where
  "protect_brackets text =
     (case protect_parens text [] 0 of
        (result, replacements, counter) \<Rightarrow>
          (case protect_curlies result replacements counter of
             (result', replacements', counter') \<Rightarrow> (result', replacements')))"

fun restore_brackets :: "string \<Rightarrow> (string \<times> string) list \<Rightarrow> string" where
  \<comment> \<open>\<open>_restore_brackets\<close>: one pass over \<open>replacements.items()\<close>, in insertion order\<close>
  "restore_brackets result [] = result"
| "restore_brackets result ((placeholder, original) # replacements) =
     restore_brackets (py_replace placeholder original result) replacements"

definition pieces :: "char \<Rightarrow> string \<Rightarrow> string list" where
  \<comment> \<open>\<open>[v.strip() for v in s.split(d) if v.strip()]\<close>\<close>
  "pieces d s = map strip (filter (\<lambda>v. strip v \<noteq> []) (split_on d s))"

fun lines_loop :: "string list \<Rightarrow> string list \<Rightarrow> string list" where
  \<comment> \<open>the loop of \<open>parse_value_list\<close> over \<open>lines\<close>, on \<open>values\<close>\<close>
  "lines_loop values [] = values"
| "lines_loop values (line # lines) =
     (let line = strip line
      in lines_loop
           (if line \<noteq> []
            then (if CHR ''|'' \<in> set line then values @ pieces CHR ''|'' line
                  else if CHR '','' \<in> set line then values @ pieces CHR '','' line
                  else values @ [line])
            else values)
           lines)"

definition split_values :: "string \<Rightarrow> string list" where
  \<comment> \<open>the delimiter chain of \<open>parse_value_list\<close>, on \<open>protected_text\<close>\<close>
  "split_values protected_text =
     (if CHR 0x0A \<in> set protected_text
      then lines_loop [] (split_on (CHR 0x0A) protected_text)
      else if CHR ''|'' \<in> set protected_text then pieces CHR ''|'' protected_text
      else if CHR '','' \<in> set protected_text then pieces CHR '','' protected_text
      else (if strip protected_text \<noteq> [] then [strip protected_text] else []))"

fun restore_loop :: "(string \<times> string) list \<Rightarrow> string list \<Rightarrow> string list" where
  \<comment> \<open>the loop of \<open>parse_value_list\<close> over \<open>values\<close>, giving \<open>restored_values\<close>\<close>
  "restore_loop replacements [] = []"
| "restore_loop replacements (v # values) =
     (let restored = restore_brackets v replacements
      in if restored \<noteq> [] then restored # restore_loop replacements values
         else restore_loop replacements values)"

definition parse_value_list :: "string \<Rightarrow> string list" where
  "parse_value_list text =
     (if text = [] \<or> strip text = [] then []
      else (case protect_brackets text of
              (protected_text, replacements) \<Rightarrow>
                restore_loop replacements (split_values protected_text)))"

definition format_as_dynamic_prompts :: "string list \<Rightarrow> string" where
  "format_as_dynamic_prompts values =
     (if values = [] then []
      else if length values = 1 then values ! 0
      else ''{'' @ join ''|'' values @ ''}'')"

section \<open>utils/text\_processor.py\<close>

definition match_spaces :: "string \<Rightarrow> string option" where
  \<comment> \<open>the pattern \<open> +\<close> matched at the start of \<open>s\<close>: the text after the match\<close>
  "match_spaces s =
     (case s of
        [] \<Rightarrow> None
      | c # cs \<Rightarrow> if c = CHR '' '' then Some (dropWhile (\<lambda>x. x = CHR '' '') cs) else None)"

definition match_comma :: "string \<Rightarrow> string option" where
  \<comment> \<open>the pattern \<open>\s*,\s*\<close> matched at the start of \<open>s\<close>: the text after the match\<close>
  "match_comma s =
     (case dropWhile is_space s of
        [] \<Rightarrow> None
      | c # cs \<Rightarrow> if c = CHR '','' then Some (dropWhile is_space cs) else None)"

lemma match_spaces_shorter: "match_spaces s = Some rest \<Longrightarrow> length rest < length s"
  unfolding match_spaces_def
  by (auto split: list.splits if_splits simp: less_Suc_eq_le length_dropWhile_le)

lemma match_comma_shorter: "match_comma s = Some rest \<Longrightarrow> length rest < length s"
proof -
  assume "match_comma s = Some rest"
  then obtain cs where 1: "dropWhile is_space s = CHR '','' # cs" and 2: "rest = dropWhile is_space cs"
    unfolding match_comma_def by (auto split: list.splits if_splits)
  have "length rest \<le> length cs" using 2 by (simp add: length_dropWhile_le)
  moreover have "length (CHR '','' # cs) \<le> length s" using 1 by (metis length_dropWhile_le)
  ultimately show ?thesis by simp
qed

function sub_spaces :: "string \<Rightarrow> string" where
  \<comment> \<open>\<open>re.sub(r' +', ' ', s)\<close>\<close>
  "sub_spaces [] = []"
| "sub_spaces (c # cs) =
     (case match_spaces (c # cs) of
        Some rest \<Rightarrow> '' '' @ sub_spaces rest
      | None \<Rightarrow> c # sub_spaces cs)"
  by pat_completeness auto
termination
  by (relation "measure length") (auto dest: match_spaces_shorter)

function sub_commas :: "string \<Rightarrow> string" where
  \<comment> \<open>\<open>re.sub(r'\s*,\s*', ', ', s)\<close>\<close>
  "sub_commas [] = []"
| "sub_commas (c # cs) =
     (case match_comma (c # cs) of
        Some rest \<Rightarrow> '', '' @ sub_commas rest
      | None \<Rightarrow> c # sub_commas cs)"
  by pat_completeness auto
termination
  by (relation "measure length") (auto dest: match_comma_shorter)

definition endswith_comma :: "string \<Rightarrow> bool" where
  \<comment> \<open>\<open>s.endswith(',')\<close>\<close>
  "endswith_comma s = (s \<noteq> [] \<and> last s = CHR '','')"

definition clean_prompt :: "string \<Rightarrow> string" where
  "clean_prompt text =
     (if text = [] then []
      else (let text1 = sub_spaces text;
                text2 = sub_commas text1;
                text3 = strip text2
            in if endswith_comma text3 then strip (butlast text3) else text3))"

section \<open>nodes/wildcard\_node.py\<close>

type_synonym indices = "string \<rightharpoonup> int"

definition process ::
  "string \<Rightarrow> string \<Rightarrow> int \<Rightarrow> string \<Rightarrow> nat \<Rightarrow> indices \<Rightarrow> (error + string) \<times> indices" where
  \<comment> \<open>\<open>WildcardNode.process\<close> on the class dict \<open>_sequential_indices\<close>, which it returns
      updated; \<open>rnd\<close> is the index \<open>random.choice\<close> draws; the parameters
      \<open>wildcard_name\<close> and \<open>load_wildcard\<close> are not read\<close>
  "process wildcard_values output_mode fixed_index unique_id rnd sequential_indices =
     (let values = parse_value_list wildcard_values
      in if values = [] then (Inr [], sequential_indices)
         else if output_mode = ''list (csv)''
         then (Inr (join '', '' values), sequential_indices)
         else if output_mode = ''dynamic_prompts''
         then (Inr (format_as_dynamic_prompts values), sequential_indices)
         else if output_mode = ''fixed''
         then (let index = max 0 (min fixed_index (int (length values) - 1))
               in (py_get values index, sequential_indices))
         else if output_mode = ''sequential''
         then (let node_key = ''wildcard_'' @ unique_id;
                   indices1 = (if node_key \<notin> dom sequential_indices
                               then sequential_indices(node_key \<mapsto> 0)
                               else sequential_indices)
               in case indices1 node_key of
                    None \<Rightarrow> (Inl KeyError, indices1)
                  | Some cursor \<Rightarrow>
                      (let index = cursor mod int (length values)
                       in case py_get values index of
                            Inl e \<Rightarrow> (Inl e, indices1)
                          | Inr result \<Rightarrow>
                              (Inr result,
                               indices1(node_key \<mapsto> (index + 1) mod int (length values)))))
         else (py_get values (int (rnd mod length values)), sequential_indices))"

definition reset_sequential_index :: "string \<Rightarrow> indices \<Rightarrow> indices" where
  "reset_sequential_index unique_id sequential_indices =
     (let node_key = ''wildcard_'' @ unique_id
      in if node_key \<in> dom sequential_indices
         then sequential_indices(node_key \<mapsto> 0)
         else sequential_indices)"

section \<open>The delimiter precedence in the words of the specification\<close>

definition spec_pieces :: "char \<Rightarrow> string \<Rightarrow> string list" where
  \<comment> \<open>split on the delimiter, trim every piece, drop the blank pieces\<close>
  "spec_pieces d s = filter (\<lambda>v. v \<noteq> []) (map strip (split_on d s))"

definition spec_split_line :: "string \<Rightarrow> string list" where
  \<comment> \<open>one line: split on the pipe if it has one, else on the comma if it has one, else
      kept whole\<close>
  "spec_split_line l =
     (if CHR ''|'' \<in> set l then spec_pieces CHR ''|'' l
      else if CHR '','' \<in> set l then spec_pieces CHR '','' l
      else [strip l])"

definition spec_split :: "string \<Rightarrow> string list" where
  \<comment> \<open>the precedence newline, pipe, comma over the whole text\<close>
  "spec_split t =
     (if CHR 0x0A \<in> set t
      then concat (map spec_split_line (filter (\<lambda>l. strip l \<noteq> []) (split_on (CHR 0x0A) t)))
      else if CHR ''|'' \<in> set t then spec_pieces CHR ''|'' t
      else if CHR '','' \<in> set t then spec_pieces CHR '','' t
      else filter (\<lambda>v. v \<noteq> []) [strip t])"

section \<open>Texts whose braces all begin a placeholder\<close>

function well_formed :: "string \<Rightarrow> bool" where
  \<comment> \<open>every \<open>{\<close> of the text begins a match of \<open>WILDCARD_PATTERN\<close>\<close>
  "well_formed [] = True"
| "well_formed (c # cs) =
     (if c = CHR ''{''
      then (case match_wildcard (c # cs) of
              Some (n, rest) \<Rightarrow> well_formed rest
            | None \<Rightarrow> False)
      else well_formed cs)"
  by pat_completeness auto
termination
  by (relation "measure length") (auto dest: match_wildcard_shorter)

function erase_tokens :: "string \<Rightarrow> string" where
  \<comment> \<open>the text without the matches of \<open>WILDCARD_PATTERN\<close>, scanning left to right\<close>
  "erase_tokens [] = []"
| "erase_tokens (c # cs) =
     (case match_wildcard (c # cs) of
        Some (n, rest) \<Rightarrow> erase_tokens rest
      | None \<Rightarrow> c # erase_tokens cs)"
  by pat_completeness auto
termination
  by (relation "measure length") (auto dest: match_wildcard_shorter)

section \<open>Normal forms of a cleaned prompt\<close>

fun no_double_space :: "string \<Rightarrow> bool" where
  \<comment> \<open>no two spaces in a row\<close>
  "no_double_space (a # b # r) = (\<not> (a = CHR '' '' \<and> b = CHR '' '') \<and> no_double_space (b # r))"
| "no_double_space r = True"

fun starts_comma :: "string \<Rightarrow> bool" where
  "starts_comma [] = False"
| "starts_comma (c # cs) = (c = CHR '','')"

fun comma_normal :: "string \<Rightarrow> bool" where
  \<comment> \<open>every comma is followed by one space and then by no further whitespace, and no
      other whitespace comes before a comma\<close>
  "comma_normal [] = True"
| "comma_normal (c # cs) =
     (if c = CHR '',''
      then (case cs of
              [] \<Rightarrow> False
            | d # ds \<Rightarrow> d = CHR '' '' \<and> (ds = [] \<or> \<not> is_space (hd ds)) \<and> comma_normal ds)
      else \<not> (is_space c \<and> starts_comma (dropWhile is_space cs)) \<and> comma_normal cs)"

section \<open>Texts made of plain text and placeholders\<close>












section \<open>A bracket group inside plain text\<close>





section \<open>Auxiliary lemmas\<close>

lemma py_get_in_range: "0 \<le> i \<Longrightarrow> i < int (length xs) \<Longrightarrow> py_get xs i = Inr (xs ! nat i)"
  by (simp add: py_get_def)

lemma strip_blank:
  assumes "\<forall>c \<in> set s. is_space c"
  shows "strip s = []"
  using assms by (auto simp: strip_def lstrip_def rstrip_def dest: set_dropWhileD)









lemma replace_ne_self: "old \<noteq> [] \<Longrightarrow> replace_ne old new old = new"
  by (cases old) simp_all




lemma rstrip_Nil [simp]: "rstrip [] = []"
  by (simp add: rstrip_def)

lemma rstrip_Cons:
  "rstrip (c # cs) = (if rstrip cs = [] \<and> is_space c then [] else c # rstrip cs)"
  by (auto simp: rstrip_def dropWhile_append)

lemma lstrip_simps [simp]:
  "lstrip [] = []"
  "lstrip (c # cs) = (if is_space c then lstrip cs else c # cs)"
  by (simp_all add: lstrip_def)

lemma lstrip_rstrip_commute: "rstrip (lstrip s) = lstrip (rstrip s)"
  by (induction s) (auto simp: rstrip_Cons)

lemma rstrip_idem [simp]: "rstrip (rstrip s) = rstrip s"
  by (simp add: rstrip_def)

lemma lstrip_idem [simp]: "lstrip (lstrip s) = lstrip s"
  by (simp add: lstrip_def)

lemma strip_lstrip [simp]: "strip (lstrip s) = strip s"
  by (simp add: strip_def lstrip_rstrip_commute)

lemma strip_rstrip [simp]: "strip (rstrip s) = strip s"
  by (simp add: strip_def)

lemma strip_idem [simp]: "strip (strip s) = strip s"
  by (simp add: strip_def lstrip_rstrip_commute)

lemma split_on_ne [simp]: "split_on d s \<noteq> []"
  by (induction s) (auto split: list.splits)

lemma split_on_absent: "d \<notin> set s \<Longrightarrow> split_on d s = [s]"
  by (induction s) auto

lemma rstrip_Nil_set: "rstrip s = [] \<Longrightarrow> is_space c \<or> c \<notin> set s"
  by (induction s) (auto simp: rstrip_Cons split: if_splits)

lemma split_on_lstrip:
  "\<not> is_space d \<Longrightarrow> split_on d (lstrip s) = lstrip (hd (split_on d s)) # tl (split_on d s)"
proof (induction s)
  case Nil
  then show ?case by simp
next
  case (Cons c cs)
  obtain p ps where p: "split_on d cs = p # ps" by (cases "split_on d cs") simp_all
  show ?case
  proof (cases "is_space c")
    case True
    with Cons.prems have "c \<noteq> d" by auto
    with True Cons p show ?thesis by simp
  next
    case False
    then show ?thesis using p by simp
  qed
qed

lemma split_on_single: "split_on d s = [p] \<Longrightarrow> p = s"
proof (induction s arbitrary: p)
  case Nil
  then show ?case by simp
next
  case (Cons c cs)
  obtain q qs where q: "split_on d cs = q # qs" by (cases "split_on d cs") simp_all
  with Cons.prems have "c \<noteq> d" "qs = []" "p = c # q" by (auto split: if_splits)
  with Cons.IH [of q] q show ?case by simp
qed

lemma split_on_rstrip:
  "\<not> is_space d \<Longrightarrow>
     split_on d (rstrip s) = butlast (split_on d s) @ [rstrip (last (split_on d s))]"
proof (induction s)
  case Nil
  then show ?case by simp
next
  case (Cons c cs)
  note IH = Cons.IH [OF Cons.prems]
  obtain p ps where p: "split_on d cs = p # ps" by (cases "split_on d cs") simp_all
  show ?case
  proof (cases "rstrip cs = [] \<and> is_space c")
    case True
    then have "d \<notin> set cs" using rstrip_Nil_set [of cs d] Cons.prems by auto
    moreover from True Cons.prems have "c \<noteq> d" by auto
    ultimately show ?thesis using True by (simp add: split_on_absent rstrip_Cons)
  next
    case False
    then have r: "rstrip (c # cs) = c # rstrip cs" by (simp add: rstrip_Cons)
    show ?thesis
    proof (cases "c = d")
      case True
      then show ?thesis using r IH p by simp
    next
      case cd: False
      show ?thesis
      proof (cases ps)
        case Nil
        with p have "p = cs" using split_on_single by blast
        with Nil p IH have "split_on d (rstrip cs) = [rstrip cs]" by simp
        with \<open>p = cs\<close> show ?thesis using r cd p Nil by simp
      next
        case (Cons q qs)
        then show ?thesis using r cd p IH by simp
      qed
    qed
  qed
qed

lemma map_strip_split_on_strip:
  assumes "\<not> is_space d"
  shows "map strip (split_on d (strip s)) = map strip (split_on d s)"
proof -
  have l: "map strip (split_on d (lstrip t)) = map strip (split_on d t)" for t
  proof -
    obtain p ps where p: "split_on d t = p # ps" by (cases "split_on d t") simp_all
    then show ?thesis using split_on_lstrip [OF assms, of t] by simp
  qed
  have r: "map strip (split_on d (rstrip t)) = map strip (split_on d t)" for t
  proof -
    have "map strip (butlast xs @ [rstrip (last xs)]) = map strip xs" if "xs \<noteq> []" for xs
      using that by (induction xs) auto
    then show ?thesis using split_on_rstrip [OF assms, of t] by simp
  qed
  have "strip s = lstrip (rstrip s)" by (simp add: strip_def)
  then show ?thesis by (simp only: l r)
qed

lemma in_set_dropWhile_not: "\<not> P d \<Longrightarrow> d \<in> set (dropWhile P xs) \<longleftrightarrow> d \<in> set xs"
  by (induction xs) auto

lemma in_set_strip: "\<not> is_space d \<Longrightarrow> d \<in> set (strip s) \<longleftrightarrow> d \<in> set s"
  by (simp add: strip_def lstrip_def rstrip_def in_set_dropWhile_not)

lemma pieces_spec: "pieces d s = spec_pieces d s"
  by (simp add: pieces_def spec_pieces_def filter_map comp_def)

lemma pieces_strip: "\<not> is_space d \<Longrightarrow> pieces d (strip s) = spec_pieces d s"
  by (simp add: pieces_spec spec_pieces_def map_strip_split_on_strip)

lemma lines_loop_spec:
  "lines_loop acc ls
     = acc @ concat (map spec_split_line (filter (\<lambda>l. strip l \<noteq> []) ls))"
proof (induction ls arbitrary: acc)
  case Nil
  then show ?case by simp
next
  case (Cons l ls)
  have sp: "\<not> is_space CHR ''|''" "\<not> is_space CHR '',''" by (simp_all add: is_space_def)
  show ?case
    by (simp add: Cons.IH Let_def spec_split_line_def pieces_strip [OF sp(1)]
        pieces_strip [OF sp(2)] in_set_strip [OF sp(1)] in_set_strip [OF sp(2)])
qed

lemma split_values_spec: "split_values t = spec_split t"
  by (simp add: split_values_def spec_split_def lines_loop_spec pieces_spec)

lemma not_ident_close: "\<not> is_ident_char CHR ''}''"
  by (simp add: is_ident_char_def)

lemma match_wildcard_SomeD:
  assumes "match_wildcard t = Some (n, rest)"
  shows "t = ''{wildcard_'' @ n @ ''}'' @ rest" and "n \<noteq> []" and "\<forall>c \<in> set n. is_ident_char c"
proof -
  from assms have p: "prefix ''{wildcard_'' t"
    by (auto simp: match_wildcard_def split: if_splits)
  then obtain z where z: "t = ''{wildcard_'' @ z" by (auto simp: prefix_def)
  then have "drop 10 t = z" by simp
  with z have t: "t = ''{wildcard_'' @ drop 10 t" by simp
  from assms p obtain d where d: "dropWhile is_ident_char (drop 10 t) = d # rest"
    and n: "n = takeWhile is_ident_char (drop 10 t)" and "n \<noteq> []" and "d = CHR ''}''"
    by (auto simp: match_wildcard_def Let_def split: if_splits list.splits)
  then show "n \<noteq> []" by simp
  from n show "\<forall>c \<in> set n. is_ident_char c" by (auto dest: set_takeWhileD)
  have "drop 10 t = n @ d # rest" using d n by (metis takeWhile_dropWhile_id)
  with t \<open>d = CHR ''}''\<close> show "t = ''{wildcard_'' @ n @ ''}'' @ rest" by simp
qed


lemma match_wildcard_token:
  assumes "n \<noteq> []" and "\<forall>c \<in> set n. is_ident_char c"
  shows "match_wildcard (''{wildcard_'' @ n @ ''}'' @ r) = Some (n, r)"
proof -
  have "takeWhile is_ident_char (n @ ''}'' @ r) = n"
    and "dropWhile is_ident_char (n @ ''}'' @ r) = ''}'' @ r"
    using assms(2) by (simp_all add: takeWhile_append2 dropWhile_append2 not_ident_close)
  then show ?thesis using assms(1) by (simp add: match_wildcard_def)
qed

lemma match_wildcard_not_open: "c \<noteq> CHR ''{'' \<Longrightarrow> match_wildcard (c # cs) = None"
  by (simp add: match_wildcard_def)

lemma token_prefix_same:
  assumes "\<forall>c \<in> set m. is_ident_char c" and "\<forall>c \<in> set n. is_ident_char c"
    and "prefix (''{wildcard_'' @ m @ ''}'') (''{wildcard_'' @ n @ ''}'' @ rest)"
  shows "m = n"
proof -
  from assms(3) obtain z where "n @ ''}'' @ rest = m @ ''}'' @ z"
    by (auto simp: prefix_def)
  then have "takeWhile is_ident_char (n @ ''}'' @ rest) = takeWhile is_ident_char (m @ ''}'' @ z)"
    by simp
  then show ?thesis using assms(1,2) by (simp add: takeWhile_append2 not_ident_close)
qed

lemma replace_ne_skip:
  assumes "old \<noteq> []" and "\<forall>c \<in> set u. c \<noteq> hd old"
  shows "replace_ne old new (u @ s) = u @ replace_ne old new s"
  using assms(2)
proof (induction u)
  case Nil
  then show ?case by simp
next
  case (Cons c u)
  have "\<not> prefix old (c # u @ s)"
    using assms(1) Cons.prems by (cases old) auto
  with Cons show ?case by simp
qed

lemma replace_ne_step_no:
  "\<not> prefix old (c # cs) \<Longrightarrow> replace_ne old new (c # cs) = c # replace_ne old new cs"
  by simp

lemma replace_ne_step_yes:
  "old \<noteq> [] \<Longrightarrow> prefix old (c # cs) \<Longrightarrow>
     replace_ne old new (c # cs) = new @ replace_ne old new (drop (length old) (c # cs))"
  by simp

lemma findall_not_open: "c \<noteq> CHR ''{'' \<Longrightarrow> findall_wildcard (c # cs) = findall_wildcard cs"
  by (simp add: match_wildcard_not_open)

lemma replace_token_well_formed:
  assumes m: "m \<noteq> []" "\<forall>c \<in> set m. is_ident_char c"
  shows "well_formed t \<Longrightarrow>
     well_formed (replace_ne (''{wildcard_'' @ m @ ''}'') [] t)
     \<and> findall_wildcard (replace_ne (''{wildcard_'' @ m @ ''}'') [] t)
         = filter (\<lambda>n. n \<noteq> m) (findall_wildcard t)
     \<and> erase_tokens (replace_ne (''{wildcard_'' @ m @ ''}'') [] t) = erase_tokens t"
proof (induction t rule: well_formed.induct)
  case 1
  then show ?case by simp
next
  case (2 c cs)
  let ?pat = "''{wildcard_'' @ m @ ''}''"
  show ?case
  proof (cases "c = CHR ''{''")
    case False
    then have np: "\<not> prefix ?pat (c # cs)" by auto
    from False "2.prems" have wf: "well_formed cs" by simp
    note IH = "2.IH"(2) [OF False wf]
    have r: "replace_ne ?pat [] (c # cs) = c # replace_ne ?pat [] cs"
      by (rule replace_ne_step_no [OF np])
    show ?thesis unfolding r using False IH
      by (simp add: match_wildcard_not_open)
  next
    case True
    with "2.prems" obtain n rest where mt: "match_wildcard (c # cs) = Some (n, rest)"
      and wf: "well_formed rest"
      by (auto split: option.splits)
    note IH = "2.IH"(1) [OF True mt refl wf]
    note d = match_wildcard_SomeD [OF mt]
    show ?thesis
    proof (cases "n = m")
      case same: True
      have pp: "prefix ?pat (c # cs)" using d(1) same by simp
      have dr: "drop (length ?pat) (c # cs) = rest" using d(1) same by simp
      have "?pat \<noteq> []" by simp
      from replace_ne_step_yes [OF this pp, of "[]"]
      have r: "replace_ne ?pat [] (c # cs) = replace_ne ?pat [] rest"
        unfolding dr by simp
      show ?thesis unfolding r using IH mt same by simp
    next
      case diff: False
      have np: "\<not> prefix ?pat (c # cs)"
        using token_prefix_same [OF m(2) d(3)] d(1) diff by metis
      have cs: "cs = (''wildcard_'' @ n @ ''}'') @ rest" using d(1) True by simp
      have "\<forall>x \<in> set (''wildcard_'' @ n @ ''}''). x \<noteq> hd ?pat"
        using d(3) by (auto simp: is_ident_char_def)
      then have "replace_ne ?pat [] cs = (''wildcard_'' @ n @ ''}'') @ replace_ne ?pat [] rest"
        unfolding cs by (intro replace_ne_skip) simp_all
      with replace_ne_step_no [OF np, of "[]"] True have r: "replace_ne ?pat [] (c # cs)
          = ''{wildcard_'' @ n @ ''}'' @ replace_ne ?pat [] rest"
        by simp
      have mt': "match_wildcard (''{wildcard_'' @ n @ ''}'' @ replace_ne ?pat [] rest)
          = Some (n, replace_ne ?pat [] rest)"
        by (rule match_wildcard_token [OF d(2) d(3)])
      have "well_formed (''{wildcard_'' @ n @ ''}'' @ replace_ne ?pat [] rest)
          = well_formed (replace_ne ?pat [] rest)"
        using mt' by simp
      moreover have "findall_wildcard (''{wildcard_'' @ n @ ''}'' @ replace_ne ?pat [] rest)
          = n # findall_wildcard (replace_ne ?pat [] rest)"
        using mt' by simp
      moreover have "erase_tokens (''{wildcard_'' @ n @ ''}'' @ replace_ne ?pat [] rest)
          = erase_tokens (replace_ne ?pat [] rest)"
        using mt' by simp
      ultimately show ?thesis unfolding r using IH mt diff by simp
    qed
  qed
qed


lemma findall_ident:
  "m \<in> set (findall_wildcard t) \<Longrightarrow> m \<noteq> [] \<and> (\<forall>c \<in> set m. is_ident_char c)"
proof (induction t rule: findall_wildcard.induct)
  case 1
  then show ?case by simp
next
  case (2 c cs)
  show ?case
  proof (cases "match_wildcard (c # cs)")
    case None
    with 2 show ?thesis by simp
  next
    case (Some nr)
    obtain n rest where nr: "nr = (n, rest)" by (cases nr)
    with Some have mt: "match_wildcard (c # cs) = Some (n, rest)" by simp
    with "2.prems" have "m = n \<or> m \<in> set (findall_wildcard rest)" by simp
    then show ?thesis
      using match_wildcard_SomeD(2,3) [OF mt] "2.IH"(2) [OF mt refl] by blast
  qed
qed

lemma well_formed_no_token:
  "well_formed t \<Longrightarrow> findall_wildcard t = [] \<Longrightarrow> erase_tokens t = t \<and> CHR ''{'' \<notin> set t"
proof (induction t rule: well_formed.induct)
  case 1
  then show ?case by simp
next
  case (2 c cs)
  show ?case
  proof (cases "c = CHR ''{''")
    case True
    with "2.prems" show ?thesis by (auto split: option.splits)
  next
    case False
    with "2.prems" "2.IH"(2) show ?thesis by (simp add: match_wildcard_not_open)
  qed
qed


lemma findall_no_open: "CHR ''{'' \<notin> set t \<Longrightarrow> findall_wildcard t = []"
  by (induction t) (auto simp: match_wildcard_not_open)

lemma unique_loop_names:
  "\<exists>ms. unique_loop seen acc matches = acc @ map (\<lambda>m. ''wildcard_'' @ m) ms
     \<and> set ms \<subseteq> set matches
     \<and> (\<forall>m \<in> set matches. m \<in> set ms \<or> ''wildcard_'' @ m \<in> seen)"
proof (induction matches arbitrary: seen acc)
  case Nil
  show ?case by (rule exI [of _ "[]"]) simp
next
  case (Cons name matches)
  let ?full = "''wildcard_'' @ name"
  show ?case
  proof (cases "?full \<in> seen")
    case True
    from Cons.IH [of seen acc] obtain ms where
      "unique_loop seen acc matches = acc @ map (\<lambda>m. ''wildcard_'' @ m) ms"
      "set ms \<subseteq> set matches"
      "\<forall>m \<in> set matches. m \<in> set ms \<or> ''wildcard_'' @ m \<in> seen"
      by blast
    with True show ?thesis by (intro exI [of _ ms]) (auto simp: Let_def)
  next
    case False
    from Cons.IH [of "insert ?full seen" "acc @ [?full]"] obtain ms where
      "unique_loop (insert ?full seen) (acc @ [?full]) matches
         = (acc @ [?full]) @ map (\<lambda>m. ''wildcard_'' @ m) ms"
      "set ms \<subseteq> set matches"
      "\<forall>m \<in> set matches. m \<in> set ms \<or> ''wildcard_'' @ m \<in> insert ?full seen"
      by blast
    with False show ?thesis by (intro exI [of _ "name # ms"]) (auto simp: Let_def)
  qed
qed

lemma extract_wildcard_names_findall:
  "\<exists>ms. extract_wildcard_names t = map (\<lambda>m. ''wildcard_'' @ m) ms
     \<and> set ms = set (findall_wildcard t)"
  using unique_loop_names [of "{}" "[]" "findall_wildcard t"]
  by (auto simp: extract_wildcard_names_def)

lemma blank_fill_well_formed:
  assumes "\<forall>m \<in> set ms. m \<noteq> [] \<and> (\<forall>c \<in> set m. is_ident_char c)"
  shows "well_formed t \<Longrightarrow> set (findall_wildcard t) \<subseteq> set ms \<Longrightarrow>
     blank_fill t (map (\<lambda>m. ''wildcard_'' @ m) ms) = erase_tokens t"
  using assms
proof (induction ms arbitrary: t)
  case Nil
  then show ?case using well_formed_no_token [of t] by simp
next
  case (Cons m ms)
  let ?t' = "replace_ne (''{wildcard_'' @ m @ ''}'') [] t"
  from Cons.prems(3) have m: "m \<noteq> []" "\<forall>c \<in> set m. is_ident_char c" by simp_all
  note r = replace_token_well_formed [OF m Cons.prems(1)]
  have sub: "set (findall_wildcard ?t') \<subseteq> set ms" using r Cons.prems(2) by auto
  have "blank_fill t (map (\<lambda>m. ''wildcard_'' @ m) (m # ms))
      = blank_fill ?t' (map (\<lambda>m. ''wildcard_'' @ m) ms)"
    by (simp add: py_replace_def)
  also have "\<dots> = erase_tokens ?t'"
    using Cons.IH [of ?t'] r sub Cons.prems(3) by simp
  finally show ?case using r by simp
qed

lemma replace_wildcards_well_formed:
  assumes "well_formed (apply_values text wildcard_values)"
  shows "replace_wildcards text wildcard_values = erase_tokens (apply_values text wildcard_values)"
proof -
  let ?r = "apply_values text wildcard_values"
  obtain ms where ms: "extract_wildcard_names ?r = map (\<lambda>m. ''wildcard_'' @ m) ms"
    "set ms = set (findall_wildcard ?r)"
    using extract_wildcard_names_findall by blast
  then have "\<forall>m \<in> set ms. m \<noteq> [] \<and> (\<forall>c \<in> set m. is_ident_char c)"
    using findall_ident by blast
  from blank_fill_well_formed [OF this assms] ms show ?thesis
    by (simp add: replace_wildcards_def)
qed

lemma comma_not_space: "\<not> is_space CHR '',''"
  by (simp add: is_space_def)

lemma space_is_space: "is_space CHR '' ''"
  by (simp add: is_space_def)

lemma match_comma_Nil [simp]: "match_comma [] = None"
  by (simp add: match_comma_def)

lemma match_comma_Cons:
  "match_comma (c # cs) =
     (if c = CHR '','' then Some (dropWhile is_space cs)
      else if is_space c then match_comma cs else None)"
  by (auto simp: match_comma_def comma_not_space)

lemma match_comma_None: "match_comma s = None \<longleftrightarrow> \<not> starts_comma (dropWhile is_space s)"
  by (induction s) (auto simp: match_comma_Cons comma_not_space)

lemma match_comma_Some_rest:
  "match_comma s = Some rest \<Longrightarrow> (rest = [] \<or> \<not> is_space (hd rest)) \<and> (\<exists>p. s = p @ rest)"
proof (induction s)
  case Nil
  then show ?case by simp
next
  case (Cons c cs)
  show ?case
  proof (cases "c = CHR '',''")
    case True
    with Cons.prems have r: "rest = dropWhile is_space cs" by (simp add: match_comma_Cons)
    then have "rest = [] \<or> \<not> is_space (hd rest)" by (metis hd_dropWhile)
    moreover have "c # cs = (c # takeWhile is_space cs) @ rest" using r by simp
    ultimately show ?thesis by blast
  next
    case False
    with Cons.prems have "match_comma cs = Some rest"
      by (simp add: match_comma_Cons split: if_splits)
    with Cons.IH obtain p where "rest = [] \<or> \<not> is_space (hd rest)" "cs = p @ rest" by blast
    then have "c # cs = (c # p) @ rest" by simp
    with \<open>rest = [] \<or> \<not> is_space (hd rest)\<close> show ?thesis by blast
  qed
qed

lemma sub_commas_hd_space:
  "sub_commas s = e # es \<Longrightarrow> is_space e \<Longrightarrow> \<exists>r. s = e # r"
  by (cases s) (auto simp: comma_not_space split: option.splits)

lemma sub_commas_starts_comma:
  "starts_comma (dropWhile is_space (sub_commas s)) \<Longrightarrow> starts_comma (dropWhile is_space s)"
proof (induction s rule: sub_commas.induct)
  case 1
  then show ?case by simp
next
  case (2 c cs)
  show ?case
  proof (cases "match_comma (c # cs)")
    case None
    with "2.prems" "2.IH"(1) show ?thesis by (auto split: if_splits)
  next
    case (Some rest)
    then show ?thesis using match_comma_None [of "c # cs"] by simp
  qed
qed

lemma comma_normal_sub_commas: "comma_normal (sub_commas s)"
proof (induction s rule: sub_commas.induct)
  case 1
  show ?case by simp
next
  case (2 c cs)
  show ?case
  proof (cases "match_comma (c # cs)")
    case None
    then have c: "c \<noteq> CHR '',''" by (auto simp: match_comma_Cons)
    have "\<not> (is_space c \<and> starts_comma (dropWhile is_space (sub_commas cs)))"
    proof
      assume a: "is_space c \<and> starts_comma (dropWhile is_space (sub_commas cs))"
      then have "starts_comma (dropWhile is_space cs)" by (blast dest: sub_commas_starts_comma)
      with a have "starts_comma (dropWhile is_space (c # cs))" by simp
      with None show False by (simp add: match_comma_None)
    qed
    with None c "2.IH"(1) show ?thesis by simp
  next
    case (Some rest)
    note r = match_comma_Some_rest [OF Some]
    have "sub_commas rest = [] \<or> \<not> is_space (hd (sub_commas rest))"
    proof (cases "sub_commas rest")
      case Nil
      then show ?thesis by simp
    next
      case (Cons e es)
      show ?thesis
      proof (cases "is_space e")
        case True
        with Cons obtain q where "rest = e # q" by (blast dest: sub_commas_hd_space)
        with r True show ?thesis by simp
      next
        case False
        with Cons show ?thesis by simp
      qed
    qed
    with Some "2.IH"(2) [OF Some] show ?thesis by simp
  qed
qed

lemma comma_normal_fixed: "comma_normal s \<Longrightarrow> sub_commas s = s"
proof (induction s rule: sub_commas.induct)
  case 1
  show ?case by simp
next
  case (2 c cs)
  show ?case
  proof (cases "c = CHR '',''")
    case True
    with "2.prems" obtain ds where cs: "cs = CHR '' '' # ds"
      and ds: "ds = [] \<or> \<not> is_space (hd ds)" and n: "comma_normal ds"
      by (auto split: list.splits)
    from ds have "dropWhile is_space ds = ds" by (cases ds) auto
    then have m: "match_comma (c # cs) = Some ds"
      using True cs by (simp add: match_comma_Cons space_is_space)
    from "2.IH"(2) [OF m n] m True cs show ?thesis by simp
  next
    case False
    with "2.prems" have "\<not> (is_space c \<and> starts_comma (dropWhile is_space cs))"
      and n: "comma_normal cs" by simp_all
    then have "\<not> starts_comma (dropWhile is_space (c # cs))" using False by simp
    then have m: "match_comma (c # cs) = None" by (simp add: match_comma_None)
    from "2.IH"(1) [OF m n] m show ?thesis by simp
  qed
qed


lemma comma_normal_drop_spaces:
  "comma_normal (a @ s) \<Longrightarrow> \<forall>c \<in> set a. is_space c \<Longrightarrow> comma_normal s"
proof (induction a)
  case Nil
  then show ?case by simp
next
  case (Cons c a)
  then have "c \<noteq> CHR '',''" using comma_not_space by auto
  with Cons.prems have "comma_normal (a @ s)" by simp
  with Cons show ?case by simp
qed

lemma starts_comma_append: "starts_comma u \<Longrightarrow> starts_comma (u @ z)"
  by (cases u) simp_all

lemma comma_normal_prefix:
  "comma_normal (u @ z) \<Longrightarrow> \<not> endswith_comma u \<Longrightarrow> comma_normal u"
proof (induction u rule: comma_normal.induct)
  case 1
  show ?case by simp
next
  case (2 c cs)
  show ?case
  proof (cases "c = CHR '',''")
    case True
    with "2.prems"(2) have "cs \<noteq> []" by (auto simp: endswith_comma_def)
    then obtain d ds where cs: "cs = d # ds" by (cases cs) auto
    with "2.prems"(1) True have d: "d = CHR '' ''"
      and h: "ds @ z = [] \<or> \<not> is_space (hd (ds @ z))" and n: "comma_normal (ds @ z)"
      by simp_all
    have e: "\<not> endswith_comma ds" using "2.prems"(2) cs by (auto simp: endswith_comma_def)
    have "ds = [] \<or> \<not> is_space (hd ds)" using h by (cases ds) auto
    moreover have "comma_normal ds" using "2.IH"(1) [OF True cs n e] .
    ultimately show ?thesis using True cs d by simp
  next
    case False
    with "2.prems"(1) have a: "\<not> (is_space c \<and> starts_comma (dropWhile is_space (cs @ z)))"
      and n: "comma_normal (cs @ z)" by simp_all
    have e: "\<not> endswith_comma cs" using "2.prems"(2) by (auto simp: endswith_comma_def)
    have "\<not> (is_space c \<and> starts_comma (dropWhile is_space cs))"
    proof
      assume b: "is_space c \<and> starts_comma (dropWhile is_space cs)"
      then obtain e es where "dropWhile is_space cs = e # es"
        by (cases "dropWhile is_space cs") simp_all
      then have "dropWhile is_space (cs @ z) = dropWhile is_space cs @ z"
        by (metis dropWhile_append1 dropWhile_eq_Nil_conv list.distinct(1))
      with b a show False by (simp add: starts_comma_append)
    qed
    moreover have "comma_normal cs" using "2.IH"(2) [OF False n e] .
    ultimately show ?thesis using False by simp
  qed
qed

lemma no_double_space_tl: "no_double_space (c # s) \<Longrightarrow> no_double_space s"
  by (cases s) simp_all

lemma no_double_space_suffix: "no_double_space (a @ s) \<Longrightarrow> no_double_space s"
  by (induction a) (auto dest: no_double_space_tl)

lemma no_double_space_prefix: "no_double_space (u @ z) \<Longrightarrow> no_double_space u"
  by (induction u rule: no_double_space.induct) auto

lemma no_double_space_Cons:
  "no_double_space (c # s) \<longleftrightarrow> \<not> (c = CHR '' '' \<and> s \<noteq> [] \<and> hd s = CHR '' '') \<and> no_double_space s"
  by (cases s) auto

lemma match_spaces_Cons:
  "match_spaces (c # cs) =
     (if c = CHR '' '' then Some (dropWhile (\<lambda>x. x = CHR '' '') cs) else None)"
  by (simp add: match_spaces_def)

lemma sub_spaces_hd:
  "sub_spaces s \<noteq> [] \<Longrightarrow> hd (sub_spaces s) = CHR '' '' \<Longrightarrow> s \<noteq> [] \<and> hd s = CHR '' ''"
  by (cases s) (auto simp: match_spaces_Cons split: if_splits)

lemma no_double_space_sub_spaces: "no_double_space (sub_spaces s)"
proof (induction s rule: sub_spaces.induct)
  case 1
  show ?case by simp
next
  case (2 c cs)
  show ?case
  proof (cases "c = CHR '' ''")
    case True
    let ?rest = "dropWhile (\<lambda>x. x = CHR '' '') cs"
    have m: "match_spaces (c # cs) = Some ?rest" using True by (simp add: match_spaces_Cons)
    have "?rest = [] \<or> hd ?rest \<noteq> CHR '' ''" by (metis (mono_tags, lifting) hd_dropWhile)
    then have "\<not> (sub_spaces ?rest \<noteq> [] \<and> hd (sub_spaces ?rest) = CHR '' '')"
      using sub_spaces_hd [of ?rest] by blast
    with "2.IH"(2) [OF m] m show ?thesis by (simp add: no_double_space_Cons)
  next
    case False
    then have m: "match_spaces (c # cs) = None" by (simp add: match_spaces_Cons)
    with "2.IH"(1) [OF m] False show ?thesis by (simp add: no_double_space_Cons)
  qed
qed

lemma no_double_space_fixed: "no_double_space s \<Longrightarrow> sub_spaces s = s"
proof (induction s rule: sub_spaces.induct)
  case 1
  show ?case by simp
next
  case (2 c cs)
  from "2.prems" have n: "no_double_space cs" by (rule no_double_space_tl)
  show ?case
  proof (cases "c = CHR '' ''")
    case True
    with "2.prems" have "cs = [] \<or> hd cs \<noteq> CHR '' ''" by (auto simp: no_double_space_Cons)
    then have d: "dropWhile (\<lambda>x. x = CHR '' '') cs = cs" by (cases cs) auto
    then have m: "match_spaces (c # cs) = Some cs" using True by (simp add: match_spaces_Cons)
    from "2.IH"(2) [OF m n] m True show ?thesis by simp
  next
    case False
    then have m: "match_spaces (c # cs) = None" by (simp add: match_spaces_Cons)
    from "2.IH"(1) [OF m n] m show ?thesis by simp
  qed
qed

lemma sub_commas_hd_blank:
  "sub_commas s \<noteq> [] \<Longrightarrow> hd (sub_commas s) = CHR '' '' \<Longrightarrow> s \<noteq> [] \<and> hd s = CHR '' ''"
  by (cases s) (auto split: option.splits)

lemma no_double_space_sub_commas: "no_double_space s \<Longrightarrow> no_double_space (sub_commas s)"
proof (induction s rule: sub_commas.induct)
  case 1
  show ?case by simp
next
  case (2 c cs)
  show ?case
  proof (cases "match_comma (c # cs)")
    case None
    from "2.prems" have n: "no_double_space cs" by (rule no_double_space_tl)
    have "\<not> (c = CHR '' '' \<and> sub_commas cs \<noteq> [] \<and> hd (sub_commas cs) = CHR '' '')"
      using "2.prems" sub_commas_hd_blank [of cs] by (auto simp: no_double_space_Cons)
    with "2.IH"(1) [OF None n] None show ?thesis by (simp add: no_double_space_Cons)
  next
    case (Some rest)
    note r = match_comma_Some_rest [OF Some]
    then obtain p where "c # cs = p @ rest" by blast
    with "2.prems" have n: "no_double_space rest" by (metis no_double_space_suffix)
    have "\<not> (sub_commas rest \<noteq> [] \<and> hd (sub_commas rest) = CHR '' '')"
      using r sub_commas_hd_blank [of rest] space_is_space by auto
    with "2.IH"(2) [OF Some n] Some show ?thesis by (simp add: no_double_space_Cons)
  qed
qed

lemma strip_decompose: "\<exists>a z. s = a @ strip s @ z \<and> (\<forall>c \<in> set a. is_space c)"
proof -
  let ?r = "rstrip s"
  have "s = ?r @ rev (takeWhile is_space (rev s))"
    unfolding rstrip_def by (metis rev_append rev_rev_ident takeWhile_dropWhile_id)
  moreover have "?r = takeWhile is_space ?r @ strip s"
    by (simp add: strip_def lstrip_def)
  ultimately have "s = takeWhile is_space ?r @ strip s @ rev (takeWhile is_space (rev s))"
    by (metis append.assoc)
  moreover have "\<forall>c \<in> set (takeWhile is_space ?r). is_space c"
    by (auto dest: set_takeWhileD)
  ultimately show ?thesis by blast
qed

lemma clean_prompt_within:
  assumes "x \<noteq> []"
  shows "\<exists>a z. sub_commas (sub_spaces x) = a @ clean_prompt x @ z \<and> (\<forall>c \<in> set a. is_space c)"
proof -
  let ?t2 = "sub_commas (sub_spaces x)"
  let ?t3 = "strip ?t2"
  obtain a z where d: "?t2 = a @ ?t3 @ z" "\<forall>c \<in> set a. is_space c"
    using strip_decompose by blast
  show ?thesis
  proof (cases "endswith_comma ?t3")
    case False
    with assms have "clean_prompt x = ?t3" by (simp add: clean_prompt_def Let_def)
    with d show ?thesis by metis
  next
    case True
    with assms have y: "clean_prompt x = strip (butlast ?t3)"
      by (simp add: clean_prompt_def Let_def)
    obtain a' z' where d': "butlast ?t3 = a' @ strip (butlast ?t3) @ z'" "\<forall>c \<in> set a'. is_space c"
      using strip_decompose by blast
    from True have "?t3 \<noteq> []" by (simp add: endswith_comma_def)
    then have "?t3 = butlast ?t3 @ [last ?t3]" by simp
    with d' have "?t3 = a' @ clean_prompt x @ z' @ [last ?t3]" using y by (metis append.assoc)
    with d(1) have "?t2 = (a @ a') @ clean_prompt x @ (z' @ [last ?t3] @ z)"
      by (metis append.assoc)
    moreover have "\<forall>c \<in> set (a @ a'). is_space c" using d(2) d'(2) by auto
    ultimately show ?thesis by blast
  qed
qed

lemma strip_Nil [simp]: "strip [] = []"
  by (simp add: strip_def)

lemma clean_prompt_stripped: "strip (clean_prompt x) = clean_prompt x"
  by (simp add: clean_prompt_def Let_def)






























lemma split_on_Cons_sep: "split_on d (d # s) = [] # split_on d s"
  by simp










































section \<open>The value-list parser\<close>

text \<open>
  C1. No placeholder of the protection pass should remain in a returned value, nested
  groups included. The restoration pass runs once over the replacements in the order
  they were recorded, inner group first, so the placeholder of an inner group that the
  original text of the outer group carries is put back too late to be replaced: on
  \<open>((a))\<close> the parser returns the value \<open>(__PAREN_0__)\<close>, and on \<open>{a (b, c)}\<close>
  the value \<open>{a __PAREN_0__}\<close>.
\<close>

theorem nested_group_leaks_placeholder:
  "parse_value_list ''((a))'' = [''(__PAREN_0__)'']
   \<and> parse_value_list ''{a (b, c)}'' = [''{a __PAREN_0__}'']"
  by code_simp




text \<open>
  C5. The delimiter chain of the parser is the precedence newline, then pipe, then comma
  of the specification: a text with a newline is split into lines, and every non-blank
  line on the pipe if it has one, else on the comma if it has one, else kept whole; a
  text without newline is split on the pipe, else on the comma, else kept whole; every
  piece is trimmed and the blank ones are dropped. The parser applies it to the
  protected text, and the text of three lines \<open>a\<close>, \<open>b|c\<close>, \<open>d,e\<close> parses to the five
  values \<open>a\<close>, \<open>b\<close>, \<open>c\<close>, \<open>d\<close>, \<open>e\<close>.
\<close>

theorem delimiter_precedence:
  "split_values protected_text = spec_split protected_text
   \<and> parse_value_list text
       = (if strip text = [] then []
          else restore_loop (snd (protect_brackets text))
                 (spec_split (fst (protect_brackets text))))
   \<and> parse_value_list ''a\<newline>b|c\<newline>d,e'' = [''a'', ''b'', ''c'', ''d'', ''e'']"
proof -
  have "parse_value_list ''a\<newline>b|c\<newline>d,e'' = [''a'', ''b'', ''c'', ''d'', ''e'']"
    by code_simp
  moreover have "strip [] = []" by (simp add: strip_def)
  ultimately show ?thesis
    by (auto simp: parse_value_list_def split_values_spec split: prod.splits)
qed

section \<open>The placeholder substitution\<close>

text \<open>
  C2, as stated: placeholder text that a supplied value brings in appears verbatim in
  the output. The blank-fill pass scans the text after the values are applied: the value
  \<open>{wildcard_b}\<close>, which matches the placeholder pattern, substituted for
  \<open>{wildcard_a}\<close> is erased, and the output is empty.
\<close>

theorem injected_placeholder_erased:
  "match_wildcard ''{wildcard_b}'' = Some (''b'', [])
   \<and> replace_wildcards ''{wildcard_a}'' [(''wildcard_a'', PyStr ''{wildcard_b}'')] = []"
  by code_simp

text \<open>
  C2, amended. Placeholder text brought in by a supplied value is blank-filled like any
  other placeholder: when every \<open>{\<close> of the text after the value pass begins a
  placeholder, the output is that text with every placeholder erased; and the value
  \<open>{wildcard_b}\<close>, for an identifier \<open>b\<close>, substituted into the text \<open>{wildcard_a}\<close>
  gives the empty string.
\<close>

theorem injected_placeholder_blank_filled:
  "(well_formed (apply_values text wildcard_values) \<longrightarrow>
      replace_wildcards text wildcard_values
        = erase_tokens (apply_values text wildcard_values))
   \<and> (b \<noteq> [] \<and> list_all is_ident_char b \<longrightarrow>
      replace_wildcards (''{wildcard_'' @ a @ ''}'')
        [(''wildcard_'' @ a, PyStr (''{wildcard_'' @ b @ ''}''))] = [])"
proof -
  have "replace_wildcards (''{wildcard_'' @ a @ ''}'')
      [(''wildcard_'' @ a, PyStr (''{wildcard_'' @ b @ ''}''))] = []"
    if b: "b \<noteq> []" "list_all is_ident_char b"
  proof -
    let ?v = "''{wildcard_'' @ b @ ''}''"
    have b': "\<forall>c \<in> set b. is_ident_char c" using b(2) by (simp add: list_all_iff)
    have "replace_ne (''{wildcard_'' @ a @ ''}'') ?v (''{wildcard_'' @ a @ ''}'') = ?v"
      by (rule replace_ne_self) simp
    then have av: "apply_values (''{wildcard_'' @ a @ ''}'') [(''wildcard_'' @ a, PyStr ?v)] = ?v"
      by (simp add: py_replace_def)
    have mt: "match_wildcard ?v = Some (b, [])"
      using match_wildcard_token [OF b(1) b', of "[]"] by simp
    then have "well_formed ?v" and "erase_tokens ?v = []" by simp_all
    with replace_wildcards_well_formed [of "''{wildcard_'' @ a @ ''}''" "[(''wildcard_'' @ a, PyStr ?v)]"] av
    show ?thesis by simp
  qed
  then show ?thesis using replace_wildcards_well_formed by blast
qed

theorem injected_placeholder_blank_filled_witness:
  "well_formed (apply_values ''{wildcard_a} car'' [(''wildcard_a'', PyStr ''red {wildcard_b}'')])
   \<and> replace_wildcards ''{wildcard_a} car'' [(''wildcard_a'', PyStr ''red {wildcard_b}'')] = ''red  car''
   \<and> replace_wildcards ''{wildcard_a}'' [(''wildcard_a'', PyStr ''{wildcard_b}'')] = []"
proof -
  have w: "well_formed (apply_values ''{wildcard_a} car'' [(''wildcard_a'', PyStr ''red {wildcard_b}'')])"
    by code_simp
  have e: "erase_tokens (apply_values ''{wildcard_a} car'' [(''wildcard_a'', PyStr ''red {wildcard_b}'')])
      = ''red  car''"
    by code_simp
  have i: "''b'' \<noteq> [] \<and> list_all is_ident_char ''b''" by (simp add: is_ident_char_def)
  from injected_placeholder_blank_filled [of "''{wildcard_a} car''" "[(''wildcard_a'', PyStr ''red {wildcard_b}'')]" "''b''" "''a''"] w e i
  show ?thesis by simp
qed




section \<open>The prompt cleaner\<close>

text \<open>
  C3, as stated: \<open>clean_prompt\<close> is idempotent. It strips one trailing comma per call:
  \<open>a,,\<close> is cleaned to \<open>a,\<close>, and \<open>a,\<close> to \<open>a\<close>.
\<close>

theorem clean_prompt_not_idempotent:
  "clean_prompt ''a,,'' = ''a,'' \<and> clean_prompt (clean_prompt ''a,,'') = ''a''"
  by code_simp

text \<open>
  C3, amended. Cleaning a cleaned prompt changes nothing when the cleaned prompt does
  not end with a comma.
\<close>

theorem clean_prompt_idempotent_without_trailing_comma:
  assumes "\<not> endswith_comma (clean_prompt x)"
  shows "clean_prompt (clean_prompt x) = clean_prompt x"
proof (cases "x = []")
  case True
  then show ?thesis by (simp add: clean_prompt_def)
next
  case False
  let ?y = "clean_prompt x"
  let ?t2 = "sub_commas (sub_spaces x)"
  obtain a z where d: "?t2 = a @ ?y @ z" "\<forall>c \<in> set a. is_space c"
    using clean_prompt_within [OF False] by blast
  have "comma_normal ?t2" by (rule comma_normal_sub_commas)
  with d have "comma_normal (?y @ z)" by (metis comma_normal_drop_spaces)
  with assms have "comma_normal ?y" by (rule comma_normal_prefix [rotated])
  then have c: "sub_commas ?y = ?y" by (rule comma_normal_fixed)
  have "no_double_space ?t2"
    by (intro no_double_space_sub_commas no_double_space_sub_spaces)
  with d have "no_double_space ?y"
    by (metis no_double_space_suffix no_double_space_prefix)
  then have s: "sub_spaces ?y = ?y" by (rule no_double_space_fixed)
  show ?thesis
    using assms by (simp add: clean_prompt_def [of ?y] Let_def s c clean_prompt_stripped)
qed

theorem clean_prompt_idempotent_without_trailing_comma_witness:
  "clean_prompt ''a  ,b ,, c , '' = ''a, b, , c''
   \<and> clean_prompt (clean_prompt ''a  ,b ,, c , '') = clean_prompt ''a  ,b ,, c , ''"
proof -
  have c: "clean_prompt ''a  ,b ,, c , '' = ''a, b, , c''" by code_simp
  then have "\<not> endswith_comma (clean_prompt ''a  ,b ,, c , '')"
    by (simp add: endswith_comma_def)
  from clean_prompt_idempotent_without_trailing_comma [OF this] c show ?thesis by simp
qed

section \<open>The selection node\<close>

text \<open>
  C7. Sequential selection is a round-robin per key: when the text parses to the three
  values \<open>x\<close>, \<open>y\<close>, \<open>z\<close> and the key of the node has no cursor yet, four successive
  sequential calls of \<open>process\<close> return \<open>x\<close>, \<open>y\<close>, \<open>z\<close>, \<open>x\<close>, and after
  \<open>reset_sequential_index\<close> the next call returns \<open>x\<close>.
\<close>

theorem sequential_round_robin:
  assumes vals: "parse_value_list text = [x, y, z]"
    and fresh: "st (''wildcard_'' @ K) = None"
  shows "fst (process text ''sequential'' fi K rnd st) = Inr x
    \<and> fst (process text ''sequential'' fi K rnd
             (snd (process text ''sequential'' fi K rnd st))) = Inr y
    \<and> fst (process text ''sequential'' fi K rnd
             (snd (process text ''sequential'' fi K rnd
               (snd (process text ''sequential'' fi K rnd st))))) = Inr z
    \<and> fst (process text ''sequential'' fi K rnd
             (snd (process text ''sequential'' fi K rnd
               (snd (process text ''sequential'' fi K rnd
                 (snd (process text ''sequential'' fi K rnd st))))))) = Inr x
    \<and> fst (process text ''sequential'' fi K rnd
             (reset_sequential_index K
               (snd (process text ''sequential'' fi K rnd
                 (snd (process text ''sequential'' fi K rnd
                   (snd (process text ''sequential'' fi K rnd
                     (snd (process text ''sequential'' fi K rnd st)))))))))) = Inr x"
proof -
  let ?k = "''wildcard_'' @ K"
  have step: "process text ''sequential'' fi K rnd s =
      (Inr ([x, y, z] ! nat c), s(?k \<mapsto> (c + 1) mod 3))"
    if "s ?k = Some c" "0 \<le> c" "c < 3" for s c
    using that vals by (simp add: process_def py_get_def Let_def domIff)
  have s1: "process text ''sequential'' fi K rnd st = (Inr x, st(?k \<mapsto> 1))"
    using vals fresh by (simp add: process_def py_get_def Let_def domIff)
  have s2: "process text ''sequential'' fi K rnd (st(?k \<mapsto> 1)) = (Inr y, st(?k \<mapsto> 2))"
    using step [of "st(?k \<mapsto> 1)" 1] by simp
  have s3: "process text ''sequential'' fi K rnd (st(?k \<mapsto> 2)) = (Inr z, st(?k \<mapsto> 0))"
    using step [of "st(?k \<mapsto> 2)" 2] by simp
  have s4: "process text ''sequential'' fi K rnd (st(?k \<mapsto> 0)) = (Inr x, st(?k \<mapsto> 1))"
    using step [of "st(?k \<mapsto> 0)" 0] by simp
  have r: "reset_sequential_index K (st(?k \<mapsto> 1)) = st(?k \<mapsto> 0)"
    by (simp add: reset_sequential_index_def)
  show ?thesis by (simp only: s1 s2 s3 s4 r fst_conv snd_conv)
qed

theorem sequential_round_robin_witness:
  "parse_value_list ''x,y,z'' = [''x'', ''y'', ''z'']
   \<and> (Map.empty :: indices) (''wildcard_'' @ ''7'') = None
   \<and> fst (process ''x,y,z'' ''sequential'' 0 ''7'' 0 Map.empty) = Inr ''x''
   \<and> fst (process ''x,y,z'' ''sequential'' 0 ''7'' 0
        (snd (process ''x,y,z'' ''sequential'' 0 ''7'' 0 Map.empty))) = Inr ''y''"
proof -
  have v: "parse_value_list ''x,y,z'' = [''x'', ''y'', ''z'']" by code_simp
  have f: "(Map.empty :: indices) (''wildcard_'' @ ''7'') = None" by simp
  from sequential_round_robin [where fi = 0 and rnd = 0, OF v f] v f show ?thesis by blast
qed

text \<open>
  C8. In mode \<open>fixed\<close>, over a non-empty value list, \<open>process\<close> returns the element at
  the requested index clamped into \<open>0 .. len(values) - 1\<close>; the index read is in range for
  every integer requested, so the access raises nothing.
\<close>

theorem fixed_mode_clamped:
  assumes "parse_value_list text = values" and "values \<noteq> []"
  shows "process text ''fixed'' fixed_index uid rnd st
           = (Inr (values ! nat (max 0 (min fixed_index (int (length values) - 1)))), st)
    \<and> 0 \<le> max 0 (min fixed_index (int (length values) - 1))
    \<and> max 0 (min fixed_index (int (length values) - 1)) < int (length values)"
proof -
  let ?i = "max 0 (min fixed_index (int (length values) - 1))"
  have n: "0 < int (length values)" using assms(2) by simp
  then have r: "0 \<le> ?i" "?i < int (length values)" by auto
  then have "py_get values ?i = Inr (values ! nat ?i)" by (rule py_get_in_range)
  with assms r show ?thesis by (simp add: process_def Let_def)
qed

theorem fixed_mode_clamped_witness:
  "parse_value_list ''x,y,z'' = [''x'', ''y'', ''z''] \<and> [''x'', ''y'', ''z''] \<noteq> []
   \<and> process ''x,y,z'' ''fixed'' 7 ''1'' 0 Map.empty = (Inr ''z'', Map.empty)
   \<and> process ''x,y,z'' ''fixed'' (- 4) ''1'' 0 Map.empty = (Inr ''x'', Map.empty)"
proof -
  have v: "parse_value_list ''x,y,z'' = [''x'', ''y'', ''z'']" by code_simp
  have ne: "[''x'', ''y'', ''z''] \<noteq> []" by simp
  from fixed_mode_clamped [where fixed_index = 7 and uid = "''1''" and rnd = 0 and st = Map.empty, OF v ne]
    fixed_mode_clamped [where fixed_index = "- 4" and uid = "''1''" and rnd = 0 and st = Map.empty, OF v ne] v
  show ?thesis by simp
qed

text \<open>
  C9. When the text parses to the empty list, which blank text does, \<open>process\<close> returns
  the empty string in every output mode, whatever the index and the random draw are, and
  leaves the cursors as they were.
\<close>

theorem empty_values_short_circuit:
  "(parse_value_list text = [] \<longrightarrow>
      process text output_mode fixed_index uid rnd st = (Inr [], st))
   \<and> ((\<forall>c \<in> set text. is_space c) \<longrightarrow> parse_value_list text = [])"
  by (simp add: process_def parse_value_list_def strip_blank)

theorem empty_values_short_circuit_witness:
  "parse_value_list ''  '' = []
   \<and> process ''  '' ''sequential'' 0 ''1'' 0 Map.empty = (Inr [], Map.empty)"
proof -
  have b: "\<forall>c \<in> set ''  ''. is_space c" by (simp add: is_space_def)
  from empty_values_short_circuit [of "''  ''" "''sequential''" 0 "''1''" 0 Map.empty] b
  show ?thesis by blast
qed

text \<open>
  C10. After a sequential call of \<open>process\<close> over a non-empty value list of length
  \<open>n\<close>, the cursor stored for the node's key lies in \<open>0 ..< n\<close>: it is the successor,
  modulo \<open>n\<close>, of the index read, and a key not seen before counts as cursor 0.
\<close>

theorem sequential_cursor_in_range:
  assumes "parse_value_list text = values" and "values \<noteq> []"
  shows "\<exists>c. snd (process text ''sequential'' fixed_index uid rnd st) (''wildcard_'' @ uid) = Some c
    \<and> 0 \<le> c \<and> c < int (length values)
    \<and> c = ((case st (''wildcard_'' @ uid) of None \<Rightarrow> 0 | Some i \<Rightarrow> i) mod int (length values) + 1)
            mod int (length values)"
proof -
  let ?n = "int (length values)"
  let ?k = "''wildcard_'' @ uid"
  let ?cur = "case st ?k of None \<Rightarrow> 0 | Some i \<Rightarrow> i"
  have n: "0 < ?n" using assms(2) by simp
  have g: "py_get values (?cur mod ?n) = Inr (values ! nat (?cur mod ?n))"
    using n by (intro py_get_in_range) auto
  have "snd (process text ''sequential'' fixed_index uid rnd st) ?k = Some ((?cur mod ?n + 1) mod ?n)"
    using assms g by (cases "st ?k") (auto simp: process_def Let_def domIff)
  moreover have "0 \<le> (?cur mod ?n + 1) mod ?n" "(?cur mod ?n + 1) mod ?n < ?n"
    using n by auto
  ultimately show ?thesis by blast
qed

theorem sequential_cursor_in_range_witness:
  "parse_value_list ''x,y,z'' = [''x'', ''y'', ''z''] \<and> [''x'', ''y'', ''z''] \<noteq> []
   \<and> (\<exists>c. snd (process ''x,y,z'' ''sequential'' 0 ''1'' 0 [''wildcard_1'' \<mapsto> 5]) (''wildcard_'' @ ''1'') = Some c
        \<and> 0 \<le> c \<and> c < 3)"
proof -
  have v: "parse_value_list ''x,y,z'' = [''x'', ''y'', ''z'']" by code_simp
  have ne: "[''x'', ''y'', ''z''] \<noteq> []" by simp
  from sequential_cursor_in_range [where fixed_index = 0 and uid = "''1''" and rnd = 0
      and st = "[''wildcard_1'' \<mapsto> 5]", OF v ne] v
  show ?thesis by auto
qed

end
